theory Spec2Isabelle
  imports Complex_Main "HOL-Library.Sublist"
begin

section \<open>Tile coordinates (services/tile-cache.ts)\<close>

text \<open>
  A tile of the slippy-map grid, \<^verbatim>\<open>{ z, x, y }\<close>. JavaScript numbers are IEEE doubles;
  the zoom level is taken as a natural number and the tile indices, which are results of
  \<^verbatim>\<open>Math.floor\<close>, as mathematical integers (a double counts in steps of one exactly up to
  \<open>2 ^ 53\<close>; the indices at zoom level 18 are below \<open>2 ^ 18\<close>).
\<close>

record tile =
  tile_z :: nat
  tile_x :: int
  tile_y :: int

record bounds =
  north :: real
  south :: real
  east :: real
  west :: real

text \<open>
  \<^verbatim>\<open>latLngToTile(lat, lng, zoom)\<close>, read over the real numbers: the arithmetic of the source
  line by line, with \<^verbatim>\<open>Math.pow(2, zoom)\<close> as \<open>2 ^ zoom\<close>.
\<close>

definition latLngToTile :: "real \<Rightarrow> real \<Rightarrow> nat \<Rightarrow> int \<times> int" where
  "latLngToTile lat lng zoom =
     (let x = \<lfloor>((lng + 180) / 360) * 2 ^ zoom\<rfloor>;
          y = \<lfloor>((1 - ln (tan ((lat * pi) / 180) + 1 / cos ((lat * pi) / 180)) / pi) / 2)
                 * 2 ^ zoom\<rfloor>
      in (x, y))"

text \<open>
  The inner loop of \<^verbatim>\<open>getTilesForBounds\<close>:
  \<^verbatim>\<open>for (let y = topLeft.y; y <= bottomRight.y; y++) tiles.push({ z, x, y })\<close>.
  The array \<^verbatim>\<open>tiles\<close> is threaded through; \<^verbatim>\<open>push\<close> appends at the end.
\<close>

function y_loop :: "nat \<Rightarrow> int \<Rightarrow> int \<Rightarrow> int \<Rightarrow> tile list \<Rightarrow> tile list" where
  "y_loop zl xi yi y_max tiles =
     (if yi \<le> y_max
      then y_loop zl xi (yi + 1) y_max (tiles @ [\<lparr>tile_z = zl, tile_x = xi, tile_y = yi\<rparr>])
      else tiles)"
  by pat_completeness auto
termination
  by (relation "measure (\<lambda>(zl, xi, yi, y_max, tiles). nat (y_max + 1 - yi))") auto

declare y_loop.simps [simp del]

text \<open>
  The middle loop: \<^verbatim>\<open>for (let x = topLeft.x; x <= bottomRight.x; x++) { ... }\<close>.
\<close>

function x_loop :: "nat \<Rightarrow> int \<Rightarrow> int \<Rightarrow> int \<Rightarrow> int \<Rightarrow> tile list \<Rightarrow> tile list" where
  "x_loop zl xi x_max y_min y_max tiles =
     (if xi \<le> x_max
      then x_loop zl (xi + 1) x_max y_min y_max (y_loop zl xi y_min y_max tiles)
      else tiles)"
  by pat_completeness auto
termination
  by (relation "measure (\<lambda>(zl, xi, x_max, y_min, y_max, tiles). nat (x_max + 1 - xi))") auto

declare x_loop.simps [simp del]

text \<open>
  The outer loop, \<^verbatim>\<open>for (const z of zoomLevels)\<close>, with the two corner tiles computed
  per zoom level.
\<close>

fun zoom_loop :: "bounds \<Rightarrow> nat list \<Rightarrow> tile list \<Rightarrow> tile list" where
  "zoom_loop b [] tiles = tiles"
| "zoom_loop b (zl # zs) tiles =
     (let topLeft = latLngToTile (north b) (west b) zl;
          bottomRight = latLngToTile (south b) (east b) zl
      in zoom_loop b zs
           (x_loop zl (fst topLeft) (fst bottomRight) (snd topLeft) (snd bottomRight) tiles))"

definition getTilesForBounds :: "bounds \<Rightarrow> nat list \<Rightarrow> tile list" where
  "getTilesForBounds b zoomLevels = zoom_loop b zoomLevels []"

text \<open>\<^verbatim>\<open>TILE_CACHE_CONFIG.huelvaBounds\<close> and \<^verbatim>\<open>TILE_CACHE_CONFIG.zoomLevels\<close>.\<close>

definition huelvaBounds :: bounds where
  "huelvaBounds = \<lparr>north = 37.28, south = 37.24, east = - 6.92, west = - 6.97\<rparr>"

definition zoomLevels :: "nat list" where
  "zoomLevels = [14, 15, 16, 17, 18]"

definition getHuelvaTiles :: "tile list" where
  "getHuelvaTiles = getTilesForBounds huelvaBounds zoomLevels"

text \<open>
  The tile set as the specification words it: for each zoom level in order, every column
  from the west column to the east column, and in each column every row from the north row
  to the south row.
\<close>

definition tile_range :: "nat \<Rightarrow> int \<Rightarrow> int \<Rightarrow> int \<Rightarrow> int \<Rightarrow> tile list" where
  "tile_range zl x_min x_max y_min y_max =
     concat (map (\<lambda>xi. map (\<lambda>yi. \<lparr>tile_z = zl, tile_x = xi, tile_y = yi\<rparr>) [y_min..y_max])
                 [x_min..x_max])"

section \<open>JavaScript values\<close>

text \<open>
  The decimal string of an integer, as string concatenation (\<^verbatim>\<open>z + '/' + x\<close>) and
  \<^verbatim>\<open>String.prototype.replace\<close> produce it.
\<close>

fun digits :: "nat \<Rightarrow> string" where
  "digits n =
     (if n < 10 then [''0123456789'' ! n]
      else digits (n div 10) @ [''0123456789'' ! (n mod 10)])"

declare digits.simps [simp del]

definition js_string :: "int \<Rightarrow> string" where
  "js_string i = (if i < 0 then CHR ''-'' # digits (nat (- i)) else digits (nat i))"

text \<open>
  \<^verbatim>\<open>s.replace(pat, rep)\<close> with a string pattern: the first occurrence only.
\<close>

fun replace_first :: "string \<Rightarrow> string \<Rightarrow> string \<Rightarrow> string" where
  "replace_first pat rep [] = (if pat = [] then rep else [])"
| "replace_first pat rep (c # cs) =
     (if prefix pat (c # cs) then rep @ drop (length pat) (c # cs)
      else c # replace_first pat rep cs)"

text \<open>
  A number that may be \<^verbatim>\<open>NaN\<close> or \<^verbatim>\<open>Infinity\<close>: the percentage is the result of a
  division and \<^verbatim>\<open>Math.round\<close>. Division and rounding are exact here, in the rationals;
  \<^verbatim>\<open>Math.round\<close> rounds halves up, as \<^const>\<open>round\<close> does.
\<close>

datatype jsnum = Fin int | NaN | Infinity

definition round_percent :: "nat \<Rightarrow> nat \<Rightarrow> jsnum" where
  \<comment> \<open>\<^verbatim>\<open>Math.round((n / d) * 100)\<close> for counters \<open>n\<close> and \<open>d\<close>\<close>
  "round_percent n d =
     (if d = 0 then (if n = 0 then NaN else Infinity)
      else Fin (round ((rat_of_nat n / rat_of_nat d) * 100)))"

definition js_ge :: "jsnum \<Rightarrow> int \<Rightarrow> bool" where
  \<comment> \<open>\<^verbatim>\<open>a >= k\<close>: false for \<^verbatim>\<open>NaN\<close>\<close>
  "js_ge a k = (case a of Fin i \<Rightarrow> k \<le> i | NaN \<Rightarrow> False | Infinity \<Rightarrow> True)"

section \<open>The page: IndexedDB, the network, TileCache and TilePreloader\<close>

text \<open>
  What a promise can reject with. The source passes the platform's error objects on
  unchanged; only the place of the failure is kept.
\<close>

datatype error =
    OpenFailed \<comment> \<open>\<^verbatim>\<open>indexedDB.open\<close>: \<^verbatim>\<open>request.onerror\<close>\<close>
  | RequestFailed \<comment> \<open>a \<^verbatim>\<open>get\<close>, \<^verbatim>\<open>put\<close>, \<^verbatim>\<open>count\<close> or \<^verbatim>\<open>clear\<close> request: \<^verbatim>\<open>request.onerror\<close>\<close>
  | FetchFailed \<comment> \<open>\<^verbatim>\<open>fetch\<close> rejects\<close>
  | NetworkError \<comment> \<open>\<^verbatim>\<open>throw new Error('Network error')\<close>, when \<^verbatim>\<open>response.ok\<close> is false\<close>
  | BlobFailed \<comment> \<open>\<^verbatim>\<open>response.blob()\<close> rejects\<close>

text \<open>The calls the page makes to the platform, in the order made.\<close>

datatype call =
    IdbOpen
  | IdbGet string
  | IdbPut string
  | IdbCount
  | IdbClear
  | Fetch string

datatype 'b response = Response (resp_ok: bool) (resp_blob: "'b option")

text \<open>
  The platform decides whether a call succeeds. It is a parameter: \<open>open_ok env n\<close> and
  \<open>request_ok env n\<close> say whether the call made after \<open>n\<close> earlier calls succeeds, and
  \<open>network env n url\<close> is what \<^verbatim>\<open>fetch(url)\<close> made after \<open>n\<close> earlier calls resolves to
  (\<open>None\<close>: it rejects). A response whose \<open>resp_blob\<close> is \<open>None\<close> rejects \<^verbatim>\<open>blob()\<close>.
\<close>

record 'b env =
  open_ok :: "nat \<Rightarrow> bool"
  request_ok :: "nat \<Rightarrow> bool"
  network :: "nat \<Rightarrow> string \<Rightarrow> 'b response option"

record PreloadProgress =
  total :: nat
  loaded :: nat
  failed :: nat
  percentage :: jsnum
  isComplete :: bool

text \<open>
  The state of the page. \<open>objects\<close> is the object store \<^verbatim>\<open>'tiles'\<close> of the database (a
  database not yet created is the empty store: \<^verbatim>\<open>onupgradeneeded\<close> creates the store at
  the first open); \<open>db\<close> says that \<^verbatim>\<open>TileCache.db\<close> is not \<^verbatim>\<open>null\<close>; \<open>tiles\<close>,
  \<open>isPreloading\<close> and \<open>progress\<close> are the fields of \<^verbatim>\<open>TilePreloader\<close>; \<open>emitted\<close> lists the
  progress values dispatched as \<^verbatim>\<open>tilePreloadProgress\<close> events (and posted to the host
  when there is a bridge), each as it was when dispatched. Console output is left out.
\<close>

record 'b page =
  calls :: "call list"
  objects :: "string \<rightharpoonup> 'b"
  db :: bool
  tiles :: "tile list"
  isPreloading :: bool
  progress :: PreloadProgress
  emitted :: "PreloadProgress list"

subsection \<open>TileCache\<close>

definition init :: "'b env \<Rightarrow> 'b page \<Rightarrow> (error + unit) \<times> 'b page" where
  "init env s =
     (let s1 = s\<lparr>calls := calls s @ [IdbOpen]\<rparr>
      in if open_ok env (length (calls s)) then (Inr (), s1\<lparr>db := True\<rparr>)
         else (Inl OpenFailed, s1))"

definition getKey :: "nat \<Rightarrow> int \<Rightarrow> int \<Rightarrow> string" where
  "getKey zl xi yi = js_string (int zl) @ ''/'' @ js_string xi @ ''/'' @ js_string yi"

definition ensure_db :: "'b env \<Rightarrow> 'b page \<Rightarrow> (error + unit) \<times> 'b page" where
  \<comment> \<open>\<^verbatim>\<open>if (!this.db) await this.init();\<close>\<close>
  "ensure_db env s = (if \<not> db s then init env s else (Inr (), s))"

definition getTile ::
  "'b env \<Rightarrow> nat \<Rightarrow> int \<Rightarrow> int \<Rightarrow> 'b page \<Rightarrow> (error + 'b option) \<times> 'b page" where
  "getTile env zl xi yi s =
     (case ensure_db env s of
        (Inl e, s1) \<Rightarrow> (Inl e, s1)
      | (Inr u, s1) \<Rightarrow>
          (let k = getKey zl xi yi;
               s2 = s1\<lparr>calls := calls s1 @ [IdbGet k]\<rparr>
           in if request_ok env (length (calls s1)) then (Inr (objects s1 k), s2)
              else (Inl RequestFailed, s2)))"

definition saveTile ::
  "'b env \<Rightarrow> nat \<Rightarrow> int \<Rightarrow> int \<Rightarrow> 'b \<Rightarrow> 'b page \<Rightarrow> (error + unit) \<times> 'b page" where
  "saveTile env zl xi yi blob s =
     (case ensure_db env s of
        (Inl e, s1) \<Rightarrow> (Inl e, s1)
      | (Inr u, s1) \<Rightarrow>
          (let k = getKey zl xi yi;
               s2 = s1\<lparr>calls := calls s1 @ [IdbPut k]\<rparr>
           in if request_ok env (length (calls s1))
              then (Inr (), s2\<lparr>objects := (objects s2)(k \<mapsto> blob)\<rparr>)
              else (Inl RequestFailed, s2)))"

definition hasTile ::
  "'b env \<Rightarrow> nat \<Rightarrow> int \<Rightarrow> int \<Rightarrow> 'b page \<Rightarrow> (error + bool) \<times> 'b page" where
  "hasTile env zl xi yi s =
     (case getTile env zl xi yi s of
        (Inl e, s1) \<Rightarrow> (Inl e, s1)
      | (Inr t, s1) \<Rightarrow> (Inr (t \<noteq> None), s1))"

definition getStats :: "'b env \<Rightarrow> 'b page \<Rightarrow> (error + nat) \<times> 'b page" where
  "getStats env s =
     (case ensure_db env s of
        (Inl e, s1) \<Rightarrow> (Inl e, s1)
      | (Inr u, s1) \<Rightarrow>
          (let s2 = s1\<lparr>calls := calls s1 @ [IdbCount]\<rparr>
           in if request_ok env (length (calls s1)) then (Inr (card (dom (objects s1))), s2)
              else (Inl RequestFailed, s2)))"

definition clear :: "'b env \<Rightarrow> 'b page \<Rightarrow> (error + unit) \<times> 'b page" where
  "clear env s =
     (case ensure_db env s of
        (Inl e, s1) \<Rightarrow> (Inl e, s1)
      | (Inr u, s1) \<Rightarrow>
          (let s2 = s1\<lparr>calls := calls s1 @ [IdbClear]\<rparr>
           in if request_ok env (length (calls s1)) then (Inr (), s2\<lparr>objects := Map.empty\<rparr>)
              else (Inl RequestFailed, s2)))"

subsection \<open>TilePreloader (services/tile-preloader.ts)\<close>

definition cdnUrl :: string where
  "cdnUrl =
     ''https://cartodb-basemaps-{s}.global.ssl.fastly.net/rastertiles/voyager/{z}/{x}/{y}.png''"

definition subdomains :: "string list" where
  "subdomains = [''a'', ''b'', ''c'', ''d'']"

definition getTileUrl :: "nat \<Rightarrow> int \<Rightarrow> int \<Rightarrow> string" where
  "getTileUrl zl xi yi =
     (let subdomain = subdomains ! (nat \<bar>xi + yi\<bar> mod length subdomains)
      in replace_first ''{y}'' (js_string yi)
           (replace_first ''{x}'' (js_string xi)
             (replace_first ''{z}'' (js_string (int zl))
               (replace_first ''{s}'' subdomain cdnUrl))))"

definition updateProgress :: "'b page \<Rightarrow> 'b page" where
  "updateProgress s =
     (let p = progress s;
          p1 = p\<lparr>percentage := round_percent (loaded p + failed p) (total p)\<rparr>;
          p2 = p1\<lparr>isComplete := (total p1 \<le> loaded p1 + failed p1)\<rparr>
      in s\<lparr>progress := p2, emitted := emitted s @ [p2]\<rparr>)"

definition fetch :: "'b env \<Rightarrow> string \<Rightarrow> 'b page \<Rightarrow> (error + 'b response) \<times> 'b page" where
  "fetch env url s =
     (let s1 = s\<lparr>calls := calls s @ [Fetch url]\<rparr>
      in case network env (length (calls s)) url of
           None \<Rightarrow> (Inl FetchFailed, s1)
         | Some response \<Rightarrow> (Inr response, s1))"

text \<open>
  The body of the second \<^verbatim>\<open>try\<close> of \<^verbatim>\<open>preloadTile\<close>: fetch, check \<^verbatim>\<open>response.ok\<close>, read
  the blob, save it, count the tile as loaded. \<open>Inl\<close> is an exception thrown in the block.
\<close>

definition fetch_and_cache :: "'b env \<Rightarrow> tile \<Rightarrow> 'b page \<Rightarrow> (error + bool) \<times> 'b page" where
  "fetch_and_cache env t s =
     (let url = getTileUrl (tile_z t) (tile_x t) (tile_y t)
      in case fetch env url s of
           (Inl e, s1) \<Rightarrow> (Inl e, s1)
         | (Inr response, s1) \<Rightarrow>
             if \<not> resp_ok response then (Inl NetworkError, s1)
             else (case resp_blob response of
                     None \<Rightarrow> (Inl BlobFailed, s1)
                   | Some blob \<Rightarrow>
                       (case saveTile env (tile_z t) (tile_x t) (tile_y t) blob s1 of
                          (Inl e, s2) \<Rightarrow> (Inl e, s2)
                        | (Inr u, s2) \<Rightarrow>
                            (Inr True,
                             updateProgress
                               (s2\<lparr>progress := (progress s2)\<lparr>loaded := loaded (progress s2) + 1\<rparr>\<rparr>)))))"

text \<open>
  \<^verbatim>\<open>preloadTile\<close>. The first \<^verbatim>\<open>try\<close> returns \<^verbatim>\<open>true\<close> when the store has the tile (a blob
  is truthy); its \<^verbatim>\<open>catch\<close> is empty, so a failed lookup goes on to the fetch like a miss.
  The second \<^verbatim>\<open>catch\<close> counts the tile as failed and returns \<^verbatim>\<open>false\<close>.
\<close>

definition preloadTile :: "'b env \<Rightarrow> tile \<Rightarrow> 'b page \<Rightarrow> (error + bool) \<times> 'b page" where
  "preloadTile env t s =
     (case getTile env (tile_z t) (tile_x t) (tile_y t) s of
        (Inr (Some cached), s1) \<Rightarrow>
          (Inr True,
           updateProgress (s1\<lparr>progress := (progress s1)\<lparr>loaded := loaded (progress s1) + 1\<rparr>\<rparr>))
      | (r, s1) \<Rightarrow>
          (case fetch_and_cache env t s1 of
             (Inr b, s2) \<Rightarrow> (Inr b, s2)
           | (Inl e, s2) \<Rightarrow>
               (Inr False,
                updateProgress
                  (s2\<lparr>progress := (progress s2)\<lparr>failed := failed (progress s2) + 1\<rparr>\<rparr>))))"

text \<open>
  \<^verbatim>\<open>Promise.all(batch.map(tile => this.preloadTile(tile)))\<close>: every attempt of the batch
  runs; the result is the list of their results, or the first rejection. JavaScript runs
  the attempts on one thread, and a counter is incremented and the progress dispatched
  with no \<^verbatim>\<open>await\<close> in between; the attempts of a batch are taken to settle in the order
  of the batch.
\<close>

fun promise_all :: "'b env \<Rightarrow> tile list \<Rightarrow> 'b page \<Rightarrow> (error + bool list) \<times> 'b page" where
  "promise_all env [] s = (Inr [], s)"
| "promise_all env (t # ts) s =
     (case preloadTile env t s of
        (r, s1) \<Rightarrow>
          (case promise_all env ts s1 of
             (rs, s2) \<Rightarrow>
               (case r of
                  Inl e \<Rightarrow> (Inl e, s2)
                | Inr b \<Rightarrow> (case rs of Inl e \<Rightarrow> (Inl e, s2) | Inr bs \<Rightarrow> (Inr (b # bs), s2)))))"

text \<open>
  The loop that fills a batch:
  \<^verbatim>\<open>for (let i = 0; i < concurrency && tiles.length > 0; i++) batch.push(tiles.shift())\<close>.
  The first argument is \<^verbatim>\<open>concurrency - i\<close>; the result is the batch and what is left of
  the queue.
\<close>

fun fill_batch :: "nat \<Rightarrow> tile list \<Rightarrow> tile list \<Rightarrow> tile list \<times> tile list" where
  "fill_batch 0 queue batch = (batch, queue)"
| "fill_batch (Suc n) [] batch = (batch, [])"
| "fill_batch (Suc n) (t # queue) batch = fill_batch n queue (batch @ [t])"

text \<open>
  \<^verbatim>\<open>processBatch\<close>, which calls itself while tiles are left. With \<^verbatim>\<open>concurrency\<close> 0 every
  batch is empty and the recursion never ends: the result \<open>None\<close> is a promise that never
  settles. The 50 ms pause between batches is left out.
\<close>

partial_function (option) processBatch ::
  "'b env \<Rightarrow> nat \<Rightarrow> tile list \<Rightarrow> 'b page \<Rightarrow> ((error + unit) \<times> 'b page) option" where
  "processBatch env concurrency queue s =
     (case fill_batch concurrency queue [] of
        (batch, queue1) \<Rightarrow>
          (case promise_all env batch s of
             (Inl e, s1) \<Rightarrow> Some (Inl e, s1)
           | (Inr bs, s1) \<Rightarrow>
               if queue1 \<noteq> [] then processBatch env concurrency queue1 s1
               else Some (Inr (), s1)))"

declare processBatch.simps [code]

text \<open>
  The start of a run, up to the first \<^verbatim>\<open>await\<close> of \<^verbatim>\<open>preloadAll\<close>: the flag is set, the
  progress is reset to the number of tiles and dispatched.
\<close>

definition begin_run :: "'b page \<Rightarrow> 'b page" where
  "begin_run s =
     (let s1 = s\<lparr>isPreloading := True\<rparr>;
          s2 = s1\<lparr>progress :=
                   \<lparr>total = length (tiles s1), loaded = 0, failed = 0,
                    percentage = Fin 0, isComplete = False\<rparr>\<rparr>
      in updateProgress s2)"

text \<open>
  \<^verbatim>\<open>preloadAll(concurrency)\<close>. The result \<open>Inr None\<close> is the \<^verbatim>\<open>undefined\<close> of the early
  return; a rejection leaves \<open>isPreloading\<close> as it is.
\<close>

definition preloadAll ::
  "'b env \<Rightarrow> nat \<Rightarrow> 'b page \<Rightarrow> ((error + PreloadProgress option) \<times> 'b page) option" where
  "preloadAll env concurrency s =
     (if isPreloading s then Some (Inr None, s)
      else
        (let s3 = begin_run s
         in case processBatch env concurrency (tiles s3) s3 of
              None \<Rightarrow> None
            | Some (Inl e, s4) \<Rightarrow> Some (Inl e, s4)
            | Some (Inr u, s4) \<Rightarrow>
                (let s5 = s4\<lparr>isPreloading := False\<rparr>
                 in Some (Inr (Some (progress s5)), s5))))"

record CachedCount =
  cc_total :: nat
  cc_cached :: nat
  cc_percentage :: jsnum

text \<open>
  The loop of \<^verbatim>\<open>checkCachedCount\<close>, \<^verbatim>\<open>for (const tile of this.tiles)\<close>, with the counter
  \<^verbatim>\<open>cached\<close> threaded through; the \<^verbatim>\<open>catch\<close> ignores a failed check.
\<close>

fun count_loop :: "'b env \<Rightarrow> tile list \<Rightarrow> nat \<Rightarrow> 'b page \<Rightarrow> nat \<times> 'b page" where
  "count_loop env [] cached s = (cached, s)"
| "count_loop env (t # ts) cached s =
     (case hasTile env (tile_z t) (tile_x t) (tile_y t) s of
        (Inr exists, s1) \<Rightarrow> count_loop env ts (if exists then cached + 1 else cached) s1
      | (Inl e, s1) \<Rightarrow> count_loop env ts cached s1)"

definition checkCachedCount :: "'b env \<Rightarrow> 'b page \<Rightarrow> CachedCount \<times> 'b page" where
  "checkCachedCount env s =
     (case count_loop env (tiles s) 0 s of
        (cached, s1) \<Rightarrow>
          (\<lparr>cc_total = length (tiles s1), cc_cached = cached,
            cc_percentage = round_percent cached (length (tiles s1))\<rparr>, s1))"

text \<open>
  The page as the generated script defines it, before its first call: the tile list and
  the total of the Huelva tiles are built into \<^verbatim>\<open>TilePreloader\<close>. The store is what earlier
  sessions left.
\<close>

definition initial_page :: "(string \<rightharpoonup> 'b) \<Rightarrow> 'b page" where
  "initial_page store =
     \<lparr>calls = [], objects = store, db = False, tiles = getHuelvaTiles, isPreloading = False,
      progress = \<lparr>total = length getHuelvaTiles, loaded = 0, failed = 0,
                  percentage = Fin 0, isComplete = False\<rparr>,
      emitted = []\<rparr>"

section \<open>The host side (hooks/use-tile-preload.ts)\<close>

definition PRELOAD_STATUS_KEY :: string where
  "PRELOAD_STATUS_KEY = ''@SemanaSanta:tilesPreloaded''"

text \<open>The calls the hook makes to \<^verbatim>\<open>AsyncStorage\<close>, in the order made.\<close>

datatype storage_call =
    GetItem string
  | SetItem string string
  | RemoveItem string

text \<open>
  The durable store \<^verbatim>\<open>AsyncStorage\<close> and the three state variables of the hook
  \<^verbatim>\<open>useTilePreload\<close>.
\<close>

record hook =
  storage :: "string \<rightharpoonup> string"
  storage_calls :: "storage_call list"
  hook_progress :: "PreloadProgress option"
  isPreloaded :: bool
  isFirstLoad :: bool

text \<open>
  Each function below makes one call to \<^verbatim>\<open>AsyncStorage\<close>; \<open>ok\<close> says whether that call
  resolves. A call that rejects is caught and only logged.
\<close>

definition checkPreloadStatus :: "bool \<Rightarrow> hook \<Rightarrow> hook" where
  "checkPreloadStatus ok h =
     (let h1 = h\<lparr>storage_calls := storage_calls h @ [GetItem PRELOAD_STATUS_KEY]\<rparr>
      in if ok then
           (let status = storage h1 PRELOAD_STATUS_KEY
            in if status = Some ''true'' then h1\<lparr>isPreloaded := True, isFirstLoad := False\<rparr>
               else h1)
         else h1)"

text \<open>
  Mounting the hook: the initial values of \<^verbatim>\<open>useState\<close>, then the effect with the empty
  dependency list, which runs \<^verbatim>\<open>checkPreloadStatus\<close> once.
\<close>

definition mount :: "bool \<Rightarrow> (string \<rightharpoonup> string) \<Rightarrow> hook" where
  "mount ok store =
     checkPreloadStatus ok
       \<lparr>storage = store, storage_calls = [], hook_progress = None,
        isPreloaded = False, isFirstLoad = True\<rparr>"

definition handleProgress :: "bool \<Rightarrow> PreloadProgress \<Rightarrow> hook \<Rightarrow> hook" where
  "handleProgress ok newProgress h =
     (let h1 = h\<lparr>hook_progress := Some newProgress\<rparr>
      in if isComplete newProgress \<and> js_ge (percentage newProgress) 90 then
           (let h2 = h1\<lparr>storage_calls :=
                         storage_calls h1 @ [SetItem PRELOAD_STATUS_KEY ''true'']\<rparr>
            in if ok then
                 h2\<lparr>storage := (storage h2)(PRELOAD_STATUS_KEY \<mapsto> ''true''),
                    isPreloaded := True, isFirstLoad := False\<rparr>
               else h2)
         else h1)"

definition resetPreloadStatus :: "bool \<Rightarrow> hook \<Rightarrow> hook" where
  "resetPreloadStatus ok h =
     (let h1 = h\<lparr>storage_calls := storage_calls h @ [RemoveItem PRELOAD_STATUS_KEY]\<rparr>
      in if ok then
           h1\<lparr>storage := (storage h1)(PRELOAD_STATUS_KEY := None),
              isPreloaded := False, isFirstLoad := True, hook_progress := None\<rparr>
         else h1)"

section \<open>Notions used in the properties\<close>

subsection \<open>Clients of the tile store\<close>

text \<open>
  A call of one of the public operations of \<^verbatim>\<open>TileCache\<close>, and the state a sequence of
  such calls leaves, whatever their results.
\<close>

datatype 'b cache_op =
    Init
  | GetTile nat int int
  | SaveTile nat int int 'b
  | HasTile nat int int
  | GetStats
  | Clear

fun run_op :: "'b env \<Rightarrow> 'b cache_op \<Rightarrow> 'b page \<Rightarrow> 'b page" where
  "run_op env Init s = snd (init env s)"
| "run_op env (GetTile zl xi yi) s = snd (getTile env zl xi yi s)"
| "run_op env (SaveTile zl xi yi blob) s = snd (saveTile env zl xi yi blob s)"
| "run_op env (HasTile zl xi yi) s = snd (hasTile env zl xi yi s)"
| "run_op env GetStats s = snd (getStats env s)"
| "run_op env Clear s = snd (clear env s)"

fun run_ops :: "'b env \<Rightarrow> 'b cache_op list \<Rightarrow> 'b page \<Rightarrow> 'b page" where
  "run_ops env [] s = s"
| "run_ops env (c # cs) s = run_ops env cs (run_op env c s)"

text \<open>A call that writes the key \<open>k\<close>: a save under that key, or a clear.\<close>

fun writes_key :: "string \<Rightarrow> 'b cache_op \<Rightarrow> bool" where
  "writes_key k (SaveTile zl xi yi blob) = (getKey zl xi yi = k)"
| "writes_key k Clear = True"
| "writes_key k other = False"

subsection \<open>What a run does to the progress\<close>

text \<open>The number of attempts a progress value counts as settled.\<close>

definition settled :: "PreloadProgress \<Rightarrow> nat" where
  "settled p = loaded p + failed p"

text \<open>A progress value as \<^verbatim>\<open>updateProgress\<close> leaves it.\<close>

definition updated :: "PreloadProgress \<Rightarrow> bool" where
  "updated p \<longleftrightarrow>
     percentage p = round_percent (loaded p + failed p) (total p) \<and>
     isComplete p = (total p \<le> loaded p + failed p)"

text \<open>
  From the state \<open>s\<close> to the state \<open>s1\<close>, \<open>n\<close> attempts have settled and nothing else has
  touched the preloader: the progress was dispatched once after each.
\<close>

definition advances :: "'b page \<Rightarrow> 'b page \<Rightarrow> nat \<Rightarrow> bool" where
  "advances s s1 n \<longleftrightarrow>
     tiles s1 = tiles s \<and> isPreloading s1 = isPreloading s \<and>
     total (progress s1) = total (progress s) \<and>
     settled (progress s1) = settled (progress s) + n \<and>
     (\<exists>ups. emitted s1 = emitted s @ ups \<and>
        map settled ups = [settled (progress s) + 1 ..< settled (progress s) + 1 + n] \<and>
        (\<forall>p\<in>set ups. updated p \<and> total p = total (progress s)) \<and>
        progress s1 = (if n = 0 then progress s else last ups))"

subsection \<open>Counting cached tiles\<close>

text \<open>The results of \<^verbatim>\<open>hasTile\<close> called for each tile of a list in turn.\<close>

fun sweep :: "'b env \<Rightarrow> tile list \<Rightarrow> 'b page \<Rightarrow> (error + bool) list" where
  "sweep env [] s = []"
| "sweep env (t # ts) s =
     (case hasTile env (tile_z t) (tile_x t) (tile_y t) s of (r, s1) \<Rightarrow> r # sweep env ts s1)"

subsection \<open>Events of the host hook\<close>

text \<open>
  What happens to a mounted hook: a progress message arrives, or the reset is called;
  each with the outcome of its storage call.
\<close>

datatype hook_event =
    Progress bool PreloadProgress
  | Reset bool

fun hook_step :: "hook_event \<Rightarrow> hook \<Rightarrow> hook" where
  "hook_step (Progress ok p) h = handleProgress ok p h"
| "hook_step (Reset ok) h = resetPreloadStatus ok h"

fun hook_run :: "hook_event list \<Rightarrow> hook \<Rightarrow> hook" where
  "hook_run [] h = h"
| "hook_run (e # es) h = hook_run es (hook_step e h)"

fun is_read :: "storage_call \<Rightarrow> bool" where
  "is_read (GetItem k) = True"
| "is_read c = False"

section \<open>Concrete inputs\<close>

text \<open>A platform on which every call succeeds and every fetch returns the blob \<open>7\<close>.\<close>

definition env_ok :: "nat env" where
  "env_ok = \<lparr>open_ok = (\<lambda>n. True), request_ok = (\<lambda>n. True),
             network = (\<lambda>n url. Some (Response True (Some 7)))\<rparr>"

text \<open>A 2 by 2 region at zoom level 1.\<close>

definition four_tiles :: "tile list" where
  "four_tiles =
     [\<lparr>tile_z = 1, tile_x = 0, tile_y = 0\<rparr>, \<lparr>tile_z = 1, tile_x = 0, tile_y = 1\<rparr>,
      \<lparr>tile_z = 1, tile_x = 1, tile_y = 0\<rparr>, \<lparr>tile_z = 1, tile_x = 1, tile_y = 1\<rparr>]"

text \<open>A fresh page for these tiles, with an empty store.\<close>

definition page0 :: "nat page" where
  "page0 =
     \<lparr>calls = [], objects = Map.empty, db = False, tiles = four_tiles, isPreloading = False,
      progress = \<lparr>total = 4, loaded = 0, failed = 0, percentage = Fin 0, isComplete = False\<rparr>,
      emitted = []\<rparr>"

text \<open>
  A platform on which the fetch of the tile 1/0/1 rejects and everything else succeeds.
\<close>

definition env_flaky :: "nat env" where
  "env_flaky = \<lparr>open_ok = (\<lambda>n. True), request_ok = (\<lambda>n. True),
                network = (\<lambda>n url. if url = getTileUrl 1 0 1 then None
                                     else Some (Response True (Some 7)))\<rparr>"

text \<open>The same page with two of its four tiles, and a tile of another region, stored.\<close>

definition page1 :: "nat page" where
  "page1 = page0\<lparr>objects := [''1/0/1'' \<mapsto> 7, ''1/1/1'' \<mapsto> 7, ''3/0/0'' \<mapsto> 5]\<rparr>"

text \<open>The final progress of a run in which every tile was loaded.\<close>

definition all_loaded :: PreloadProgress where
  "all_loaded = \<lparr>total = 4, loaded = 4, failed = 0, percentage = Fin 100, isComplete = True\<rparr>"

section \<open>Properties of the tile set\<close>

lemma y_loop_eq:
  "y_loop zl xi yi y_max acc =
     acc @ map (\<lambda>yi. \<lparr>tile_z = zl, tile_x = xi, tile_y = yi\<rparr>) [yi..y_max]"
proof (induction zl xi yi y_max acc rule: y_loop.induct)
  case (1 zl xi yi y_max acc)
  show ?case
  proof (cases "yi \<le> y_max")
    case True
    then have "[yi..y_max] = yi # [yi + 1..y_max]"
      by (simp add: upto_rec1)
    with True 1 show ?thesis
      by (subst y_loop.simps) simp
  next
    case False
    then show ?thesis
      by (subst y_loop.simps) simp
  qed
qed

lemma x_loop_eq:
  "x_loop zl xi x_max y_min y_max acc = acc @ tile_range zl xi x_max y_min y_max"
proof (induction zl xi x_max y_min y_max acc rule: x_loop.induct)
  case (1 zl xi x_max y_min y_max acc)
  show ?case
  proof (cases "xi \<le> x_max")
    case True
    then have "[xi..x_max] = xi # [xi + 1..x_max]"
      by (simp add: upto_rec1)
    with True 1 show ?thesis
      by (subst x_loop.simps) (simp add: y_loop_eq tile_range_def)
  next
    case False
    then show ?thesis
      by (subst x_loop.simps) (simp add: tile_range_def)
  qed
qed



lemma zoom_loop_eq:
  "zoom_loop b zs acc =
     acc @ concat (map (\<lambda>zl. tile_range zl
        (fst (latLngToTile (north b) (west b) zl)) (fst (latLngToTile (south b) (east b) zl))
        (snd (latLngToTile (north b) (west b) zl)) (snd (latLngToTile (south b) (east b) zl)))
      zs)"
  by (induction zs arbitrary: acc) (simp_all add: x_loop_eq Let_def)





subsection \<open>The tile list built into the page\<close>

text \<open>
  Columns grow with the longitude, and rows shrink as the latitude grows (shown here for
  the northern hemisphere, where Huelva lies), so the Huelva box has at least one tile at
  each zoom level: the total of a preload run is not zero.
\<close>

lemma tile_range_not_empty:
  assumes "x_min \<le> x_max" and "y_min \<le> y_max"
  shows "tile_range zl x_min x_max y_min y_max \<noteq> []"
proof -
  from assms have "[x_min..x_max] = x_min # [x_min + 1..x_max]"
    and "[y_min..y_max] = y_min # [y_min + 1..y_max]"
    by (simp_all add: upto_rec1)
  then show ?thesis
    by (simp add: tile_range_def)
qed

lemma column_mono:
  assumes "lng \<le> lng'"
  shows "fst (latLngToTile lat lng zoom) \<le> fst (latLngToTile lat' lng' zoom)"
proof -
  from assms have "((lng + 180) / 360) * 2 ^ zoom \<le> ((lng' + 180) / 360) * 2 ^ zoom"
    by (intro mult_right_mono) simp_all
  then show ?thesis
    by (simp add: latLngToTile_def floor_mono)
qed

lemma row_mono:
  assumes "0 \<le> lat" and "lat \<le> lat'" and "lat' < 90"
  shows "snd (latLngToTile lat' lng' zoom) \<le> snd (latLngToTile lat lng zoom)"
proof -
  let ?a = "(lat * pi) / 180" and ?b = "(lat' * pi) / 180"
  have "0 \<le> lat * pi" and "lat * pi \<le> lat' * pi" and "lat' * pi < 90 * pi"
    using assms by (simp_all add: mult_right_mono)
  then have r: "0 \<le> ?a" "?a \<le> ?b" "?b < pi / 2"
    by simp_all
  have "- (pi / 2) < 0"
    by simp
  with r have l: "- (pi / 2) < ?a" "- (pi / 2) < ?b" "?a < pi / 2" "?b \<le> pi"
    by linarith+
  have t: "tan ?a \<le> tan ?b"
    using l(1) r(2) r(3) by (rule tan_mono_le)
  have t0: "0 \<le> tan ?a"
    using r(1) l(3) by (rule tan_pos_pi2_le)
  have c: "cos ?b \<le> cos ?a"
    using r(1) r(2) l(4) by (rule cos_monotone_0_pi_le)
  have c0: "0 < cos ?b"
    using l(2) r(3) by (rule cos_gt_zero_pi)
  with c have c1: "0 < cos ?a"
    by simp
  from c c0 have s: "1 / cos ?a \<le> 1 / cos ?b"
    by (simp add: frac_le)
  from t0 c1 have pos: "0 < tan ?a + 1 / cos ?a"
    by (simp add: add_nonneg_pos)
  from t s have "tan ?a + 1 / cos ?a \<le> tan ?b + 1 / cos ?b"
    by simp
  with pos have "ln (tan ?a + 1 / cos ?a) \<le> ln (tan ?b + 1 / cos ?b)"
    by simp
  then have "ln (tan ?a + 1 / cos ?a) / pi \<le> ln (tan ?b + 1 / cos ?b) / pi"
    by (simp add: divide_right_mono)
  then have "1 - ln (tan ?b + 1 / cos ?b) / pi \<le> 1 - ln (tan ?a + 1 / cos ?a) / pi"
    by (rule diff_left_mono)
  then have "(1 - ln (tan ?b + 1 / cos ?b) / pi) / 2 \<le> (1 - ln (tan ?a + 1 / cos ?a) / pi) / 2"
    by (rule divide_right_mono) simp
  then have "((1 - ln (tan ?b + 1 / cos ?b) / pi) / 2) * 2 ^ zoom \<le>
      ((1 - ln (tan ?a + 1 / cos ?a) / pi) / 2) * 2 ^ zoom"
    by (rule mult_right_mono) simp
  then have "\<lfloor>((1 - ln (tan ?b + 1 / cos ?b) / pi) / 2) * 2 ^ zoom\<rfloor> \<le>
      \<lfloor>((1 - ln (tan ?a + 1 / cos ?a) / pi) / 2) * 2 ^ zoom\<rfloor>"
    by (rule floor_mono)
  then show ?thesis
    by (simp add: latLngToTile_def)
qed

lemma getHuelvaTiles_not_empty: "getHuelvaTiles \<noteq> []"
proof -
  let ?b = huelvaBounds
  have "fst (latLngToTile (north ?b) (west ?b) 14) \<le> fst (latLngToTile (south ?b) (east ?b) 14)"
    by (rule column_mono) (simp add: huelvaBounds_def)
  moreover
  have "snd (latLngToTile (north ?b) (west ?b) 14) \<le> snd (latLngToTile (south ?b) (east ?b) 14)"
    by (rule row_mono) (simp_all add: huelvaBounds_def)
  ultimately show ?thesis
    by (simp add: getHuelvaTiles_def getTilesForBounds_def zoomLevels_def zoom_loop_eq
        tile_range_not_empty)
qed

lemma initial_page_tiles_not_empty: "tiles (initial_page store) \<noteq> []"
  by (simp add: initial_page_def getHuelvaTiles_not_empty)

section \<open>Properties of the tile store\<close>

lemma init_cases:
  "init env s = (r, s1) \<Longrightarrow>
     calls s1 = calls s @ [IdbOpen] \<and> objects s1 = objects s \<and> tiles s1 = tiles s \<and>
     isPreloading s1 = isPreloading s \<and> progress s1 = progress s \<and> emitted s1 = emitted s \<and>
     (r = Inr () \<and> db s1 \<or> r = Inl OpenFailed \<and> db s1 = db s)"
  by (auto simp: init_def Let_def split: if_splits)

lemma ensure_db_ok: "ensure_db env s = (Inr u, s1) \<Longrightarrow> db s1"
  by (auto simp: ensure_db_def init_def Let_def split: if_splits)

lemma ensure_db_frame:
  "ensure_db env s = (r, s1) \<Longrightarrow>
     objects s1 = objects s \<and> tiles s1 = tiles s \<and> isPreloading s1 = isPreloading s \<and>
     progress s1 = progress s \<and> emitted s1 = emitted s \<and> (db s \<longrightarrow> db s1) \<and>
     (calls s1 = calls s \<or> calls s1 = calls s @ [IdbOpen])"
  by (auto simp: ensure_db_def init_def Let_def split: if_splits)

lemma run_op_db: "db s \<Longrightarrow> db (run_op env c s)"
  by (cases c)
    (auto simp: init_def getTile_def saveTile_def hasTile_def getStats_def clear_def
      ensure_db_def Let_def split: prod.splits sum.splits if_splits)

lemma run_op_objects: "\<not> writes_key k c \<Longrightarrow> objects (run_op env c s) k = objects s k"
  by (cases c)
    (auto simp: init_def getTile_def saveTile_def hasTile_def getStats_def clear_def
      ensure_db_def Let_def split: prod.splits sum.splits if_splits)

lemma run_ops_db: "db s \<Longrightarrow> db (run_ops env cs s)"
  by (induction cs arbitrary: s) (simp_all add: run_op_db)

lemma run_ops_objects:
  "\<forall>c\<in>set cs. \<not> writes_key k c \<Longrightarrow> objects (run_ops env cs s) k = objects s k"
  by (induction cs arbitrary: s) (simp_all add: run_op_objects)

lemma saveTile_ok:
  "saveTile env zl xi yi blob s = (Inr u, s1) \<Longrightarrow> db s1 \<and> objects s1 (getKey zl xi yi) = Some blob"
  by (auto simp: saveTile_def Let_def dest: ensure_db_ok split: prod.splits sum.splits if_splits)

lemma getTile_open:
  "db s \<Longrightarrow> getTile env zl xi yi s =
     (if request_ok env (length (calls s)) then Inr (objects s (getKey zl xi yi))
      else Inl RequestFailed, s\<lparr>calls := calls s @ [IdbGet (getKey zl xi yi)]\<rparr>)"
  by (simp add: getTile_def ensure_db_def Let_def)

text \<open>
  C7. After a successful \<^verbatim>\<open>saveTile(coord, blob)\<close> and any later calls of the store's
  operations that neither save under that key nor clear the store, \<^verbatim>\<open>hasTile(coord)\<close>
  returns true and \<^verbatim>\<open>getTile(coord)\<close> returns the blob saved, when the platform answers
  the read. And for every coordinate and state, \<^verbatim>\<open>hasTile\<close> does what \<^verbatim>\<open>getTile\<close> does
  (same calls, same state, same rejection) and returns whether the tile is not absent.
\<close>

theorem saveTile_then_read:
  assumes saved: "saveTile env zl xi yi blob s = (Inr (), s1)"
    and later: "\<forall>c\<in>set later. \<not> writes_key (getKey zl xi yi) c"
    and answered: "request_ok env (length (calls (run_ops env later s1)))"
  shows "fst (hasTile env zl xi yi (run_ops env later s1)) = Inr True \<and>
         fst (getTile env zl xi yi (run_ops env later s1)) = Inr (Some blob) \<and>
         hasTile env zl' xi' yi' s' =
           (case getTile env zl' xi' yi' s' of
              (r, s'') \<Rightarrow> (map_sum id (\<lambda>t. t \<noteq> None) r, s''))"
proof -
  let ?s2 = "run_ops env later s1"
  have "db s1" and "objects s1 (getKey zl xi yi) = Some blob"
    using saveTile_ok [OF saved] by simp_all
  with later have open2: "db ?s2" and stored: "objects ?s2 (getKey zl xi yi) = Some blob"
    by (simp_all add: run_ops_db run_ops_objects)
  have get: "fst (getTile env zl xi yi ?s2) = Inr (Some blob)"
    using open2 stored answered by (simp add: getTile_open)
  have has: "fst (hasTile env zl xi yi ?s2) = Inr True"
    using open2 stored answered by (simp add: hasTile_def getTile_open)
  have "hasTile env zl' xi' yi' s' =
     (case getTile env zl' xi' yi' s' of (r, s'') \<Rightarrow> (map_sum id (\<lambda>t. t \<noteq> None) r, s''))"
    by (simp add: hasTile_def split: prod.splits sum.splits)
  with get has show ?thesis
    by simp
qed

theorem saveTile_then_read_witness:
  "fst (hasTile env_ok 1 2 3
          (run_ops env_ok [SaveTile 1 2 4 5, GetTile 1 2 3, GetStats]
             (snd (saveTile env_ok 1 2 3 9 page0)))) = Inr True \<and>
   fst (getTile env_ok 1 2 3
          (run_ops env_ok [SaveTile 1 2 4 5, GetTile 1 2 3, GetStats]
             (snd (saveTile env_ok 1 2 3 9 page0)))) = Inr (Some 9)"
proof -
  have saved: "saveTile env_ok 1 2 3 9 page0 = (Inr (), snd (saveTile env_ok 1 2 3 9 page0))"
    by (simp add: saveTile_def ensure_db_def init_def env_ok_def page0_def Let_def)
  have later: "\<forall>c\<in>set [SaveTile 1 2 4 5, GetTile 1 2 3, GetStats :: nat cache_op].
      \<not> writes_key (getKey 1 2 3) c"
    by (simp add: getKey_def js_string_def digits.simps)
  have answered: "request_ok env_ok (length (calls
      (run_ops env_ok [SaveTile 1 2 4 5, GetTile 1 2 3, GetStats]
         (snd (saveTile env_ok 1 2 3 9 page0)))))"
    by (simp add: env_ok_def)
  show ?thesis
    using saveTile_then_read [OF saved later answered, of 0 0 0 page0] by blast
qed




section \<open>Properties of a preload run\<close>

lemma updateProgress_frame [simp]:
  "calls (updateProgress s) = calls s"
  "objects (updateProgress s) = objects s"
  "db (updateProgress s) = db s"
  "tiles (updateProgress s) = tiles s"
  "isPreloading (updateProgress s) = isPreloading s"
  by (simp_all add: updateProgress_def Let_def)

lemma updateProgress_counters [simp]:
  "total (progress (updateProgress s)) = total (progress s)"
  "loaded (progress (updateProgress s)) = loaded (progress s)"
  "failed (progress (updateProgress s)) = failed (progress s)"
  by (simp_all add: updateProgress_def Let_def)

lemma updateProgress_updated: "updated (progress (updateProgress s))"
  by (simp add: updateProgress_def updated_def Let_def)

lemma updateProgress_emitted:
  "emitted (updateProgress s) = emitted s @ [progress (updateProgress s)]"
  by (simp add: updateProgress_def Let_def)

lemma getTile_frame:
  "getTile env zl xi yi s = (r, s1) \<Longrightarrow>
     objects s1 = objects s \<and> tiles s1 = tiles s \<and> isPreloading s1 = isPreloading s \<and>
     progress s1 = progress s \<and> emitted s1 = emitted s \<and> (db s \<longrightarrow> db s1)"
  by (auto simp: getTile_def ensure_db_def init_def Let_def split: if_splits)

lemma getTile_result:
  "getTile env zl xi yi s = (Inr v, s1) \<Longrightarrow> v = objects s (getKey zl xi yi)"
  by (auto simp: getTile_def ensure_db_def init_def Let_def split: if_splits)

lemma saveTile_frame:
  "saveTile env zl xi yi blob s = (r, s1) \<Longrightarrow>
     tiles s1 = tiles s \<and> isPreloading s1 = isPreloading s \<and>
     progress s1 = progress s \<and> emitted s1 = emitted s"
  by (auto simp: saveTile_def ensure_db_def init_def Let_def split: if_splits)

lemma fetch_frame:
  "fetch env url s = (r, s1) \<Longrightarrow>
     objects s1 = objects s \<and> tiles s1 = tiles s \<and> isPreloading s1 = isPreloading s \<and>
     progress s1 = progress s \<and> emitted s1 = emitted s \<and> db s1 = db s"
  by (auto simp: fetch_def Let_def split: option.splits)

text \<open>The second try block: what it leaves when it returns and when it throws.\<close>

lemma fetch_and_cache_cases:
  assumes "fetch_and_cache env t s = (r, s1)"
  shows "tiles s1 = tiles s \<and> isPreloading s1 = isPreloading s \<and>
     total (progress s1) = total (progress s) \<and> failed (progress s1) = failed (progress s) \<and>
     (case r of
        Inl e \<Rightarrow> progress s1 = progress s \<and> emitted s1 = emitted s
      | Inr b \<Rightarrow> b \<and> loaded (progress s1) = loaded (progress s) + 1 \<and>
          updated (progress s1) \<and> emitted s1 = emitted s @ [progress s1] \<and>
          getKey (tile_z t) (tile_x t) (tile_y t) \<in> dom (objects s1))"
proof -
  obtain fr sf where f: "fetch env (getTileUrl (tile_z t) (tile_x t) (tile_y t)) s = (fr, sf)"
    by (cases "fetch env (getTileUrl (tile_z t) (tile_x t) (tile_y t)) s")
  note ff = fetch_frame [OF f]
  show ?thesis
  proof (cases fr)
    case (Inl e)
    with assms f ff show ?thesis
      by (auto simp: fetch_and_cache_def)
  next
    case (Inr response)
    show ?thesis
    proof (cases "resp_ok response \<and> resp_blob response \<noteq> None")
      case False
      with assms f ff Inr show ?thesis
        by (auto simp: fetch_and_cache_def split: option.splits if_splits)
    next
      case True
      then obtain blob where b: "resp_ok response" "resp_blob response = Some blob"
        by auto
      obtain sr ss where sv: "saveTile env (tile_z t) (tile_x t) (tile_y t) blob sf = (sr, ss)"
        by (cases "saveTile env (tile_z t) (tile_x t) (tile_y t) blob sf")
      note sfr = saveTile_frame [OF sv]
      show ?thesis
      proof (cases sr)
        case (Inl e)
        with assms f ff Inr b sv sfr show ?thesis
          by (auto simp: fetch_and_cache_def)
      next
        case (Inr u)
        with sv have "saveTile env (tile_z t) (tile_x t) (tile_y t) blob sf = (Inr u, ss)"
          by simp
        then have "objects ss (getKey (tile_z t) (tile_x t) (tile_y t)) = Some blob"
          by (simp add: saveTile_ok)
        with assms f ff \<open>fr = Inr response\<close> b sv sfr Inr show ?thesis
          by (auto simp: fetch_and_cache_def updateProgress_updated updateProgress_emitted)
      qed
    qed
  qed
qed

lemma preloadTile_step:
  "\<exists>b s1. preloadTile env t s = (Inr b, s1) \<and>
     tiles s1 = tiles s \<and> isPreloading s1 = isPreloading s \<and>
     total (progress s1) = total (progress s) \<and>
     loaded (progress s1) = loaded (progress s) + (if b then 1 else 0) \<and>
     failed (progress s1) = failed (progress s) + (if b then 0 else 1) \<and>
     updated (progress s1) \<and> emitted s1 = emitted s @ [progress s1] \<and>
     (b \<longrightarrow> getKey (tile_z t) (tile_x t) (tile_y t) \<in> dom (objects s1))"
proof -
  obtain gr sg where g: "getTile env (tile_z t) (tile_x t) (tile_y t) s = (gr, sg)"
    by (cases "getTile env (tile_z t) (tile_x t) (tile_y t) s")
  note gf = getTile_frame [OF g]
  show ?thesis
  proof (cases "\<exists>cached. gr = Inr (Some cached)")
    case True
    then obtain cached where c: "gr = Inr (Some cached)"
      by auto
    with g have "getTile env (tile_z t) (tile_x t) (tile_y t) s = (Inr (Some cached), sg)"
      by simp
    then have "objects s (getKey (tile_z t) (tile_x t) (tile_y t)) = Some cached"
      by (simp add: getTile_result [symmetric])
    with g gf c show ?thesis
      by (auto simp: preloadTile_def updateProgress_updated updateProgress_emitted)
  next
    case False
    obtain fr sf where f: "fetch_and_cache env t sg = (fr, sf)"
      by (cases "fetch_and_cache env t sg")
    have pt: "preloadTile env t s =
        (case fr of
           Inr b \<Rightarrow> (Inr b, sf)
         | Inl e \<Rightarrow> (Inr False,
             updateProgress (sf\<lparr>progress := (progress sf)\<lparr>failed := failed (progress sf) + 1\<rparr>\<rparr>)))"
      using False g f
      by (cases gr) (auto simp: preloadTile_def split: option.splits sum.splits)
    from fetch_and_cache_cases [OF f] gf pt show ?thesis
      by (cases fr) (auto simp: updateProgress_updated updateProgress_emitted)
  qed
qed


lemma advances_refl: "advances s s 0"
  by (simp add: advances_def)

lemma advances_one:
  assumes "tiles s1 = tiles s" "isPreloading s1 = isPreloading s"
    "total (progress s1) = total (progress s)"
    "settled (progress s1) = settled (progress s) + 1"
    "updated (progress s1)" "emitted s1 = emitted s @ [progress s1]"
  shows "advances s s1 1"
  using assms by (simp add: advances_def)

lemma advances_trans:
  assumes "advances s s1 n" and "advances s1 s2 m"
  shows "advances s s2 (n + m)"
proof -
  from assms(1) obtain ups where u:
    "emitted s1 = emitted s @ ups"
    "map settled ups = [settled (progress s) + 1 ..< settled (progress s) + 1 + n]"
    "\<forall>p\<in>set ups. updated p \<and> total p = total (progress s)"
    "progress s1 = (if n = 0 then progress s else last ups)"
    by (auto simp: advances_def)
  from assms(2) obtain vps where v:
    "emitted s2 = emitted s1 @ vps"
    "map settled vps = [settled (progress s1) + 1 ..< settled (progress s1) + 1 + m]"
    "\<forall>p\<in>set vps. updated p \<and> total p = total (progress s1)"
    "progress s2 = (if m = 0 then progress s1 else last vps)"
    by (auto simp: advances_def)
  from assms have c:
    "tiles s2 = tiles s" "isPreloading s2 = isPreloading s"
    "total (progress s1) = total (progress s)" "total (progress s2) = total (progress s)"
    "settled (progress s1) = settled (progress s) + n"
    "settled (progress s2) = settled (progress s) + (n + m)"
    by (auto simp: advances_def)
  have len: "length ups = n" "length vps = m"
    using u(2) v(2) by (metis diff_add_inverse length_map length_upt)+
  define a where "a = settled (progress s) + 1"
  have split: "[a ..< a + n + m] = [a ..< a + n] @ [a + n ..< a + n + m]"
    by (rule upt_add_eq_append) simp
  have "map settled ups = [a ..< a + n]"
    using u(2) by (simp add: a_def)
  moreover have "map settled vps = [a + n ..< a + n + m]"
    using v(2) c(5) by (simp add: a_def add.commute add.left_commute)
  ultimately have "map settled (ups @ vps) = [a ..< a + n + m]"
    using split by simp
  then have m: "map settled (ups @ vps) =
      [settled (progress s) + 1 ..< settled (progress s) + 1 + (n + m)]"
    by (simp add: a_def add.assoc)
  have l: "progress s2 = (if n + m = 0 then progress s else last (ups @ vps))"
  proof (cases "m = 0")
    case True
    with len have "vps = []" by simp
    with v(4) u(4) True show ?thesis by simp
  next
    case False
    with len have "vps \<noteq> []" by auto
    with v(4) False show ?thesis by simp
  qed
  show ?thesis
    unfolding advances_def
    using c u v m l by (intro conjI exI [of _ "ups @ vps"]) auto
qed

lemma promise_all_advances:
  "\<exists>bs s1. promise_all env ts s = (Inr bs, s1) \<and> advances s s1 (length ts)"
proof (induction ts arbitrary: s)
  case Nil
  show ?case by (simp add: advances_refl)
next
  case (Cons t ts)
  obtain b s1 where t: "preloadTile env t s = (Inr b, s1)"
    and f: "tiles s1 = tiles s" "isPreloading s1 = isPreloading s"
      "total (progress s1) = total (progress s)"
      "loaded (progress s1) = loaded (progress s) + (if b then 1 else 0)"
      "failed (progress s1) = failed (progress s) + (if b then 0 else 1)"
      "updated (progress s1)" "emitted s1 = emitted s @ [progress s1]"
    using preloadTile_step [of env t s] by blast
  from f have one: "advances s s1 1"
    by (intro advances_one) (auto simp: settled_def)
  from Cons.IH [of s1] obtain bs s2 where
    r: "promise_all env ts s1 = (Inr bs, s2)" and a: "advances s1 s2 (length ts)"
    by blast
  from advances_trans [OF one a] have "advances s s2 (length (t # ts))"
    by simp
  with t r show ?case
    by simp
qed

lemma fill_batch_eq: "fill_batch n queue batch = (batch @ take n queue, drop n queue)"
  by (induction n queue batch rule: fill_batch.induct) simp_all

lemma processBatch_advances:
  assumes "0 < c"
  shows "\<exists>s1. processBatch env c queue s = Some (Inr (), s1) \<and> advances s s1 (length queue)"
proof (induction "length queue" arbitrary: queue s rule: less_induct)
  case less
  obtain bs s1 where b: "promise_all env (take c queue) s = (Inr bs, s1)"
    and a: "advances s s1 (length (take c queue))"
    using promise_all_advances by blast
  show ?case
  proof (cases "drop c queue = []")
    case True
    then have "length (take c queue) = length queue"
      by simp
    with a b True show ?thesis
      by (subst processBatch.simps) (simp add: fill_batch_eq)
  next
    case False
    with assms have "length (drop c queue) < length queue"
      by auto
    from less [OF this] obtain s2 where
      r: "processBatch env c (drop c queue) s1 = Some (Inr (), s2)"
      and a2: "advances s1 s2 (length (drop c queue))"
      by blast
    have "length (take c queue) + length (drop c queue) = length queue"
      by (metis append_take_drop_id length_append)
    with advances_trans [OF a a2] have "advances s s2 (length queue)"
      by simp
    with b r False show ?thesis
      by (subst processBatch.simps) (simp add: fill_batch_eq)
  qed
qed

lemma begin_run_facts:
  "calls (begin_run s) = calls s" "objects (begin_run s) = objects s" "db (begin_run s) = db s"
  "tiles (begin_run s) = tiles s" "isPreloading (begin_run s)"
  "total (progress (begin_run s)) = length (tiles s)"
  "settled (progress (begin_run s)) = 0"
  "updated (progress (begin_run s))"
  "emitted (begin_run s) = emitted s @ [progress (begin_run s)]"
  by (simp_all add: begin_run_def Let_def settled_def updateProgress_updated
      updateProgress_emitted)

text \<open>A whole run: it returns, and the updates are the initial one and one per tile.\<close>

lemma preloadAll_run:
  assumes "\<not> isPreloading s" and "0 < c"
  shows "\<exists>r s' ups. preloadAll env c s = Some (Inr (Some r), s') \<and>
     \<not> isPreloading s' \<and> tiles s' = tiles s \<and> progress s' = r \<and>
     emitted s' = emitted s @ ups \<and> ups \<noteq> [] \<and> last ups = r \<and>
     map settled ups = [0 ..< length (tiles s) + 1] \<and>
     (\<forall>p\<in>set ups. updated p \<and> total p = length (tiles s))"
proof -
  let ?s3 = "begin_run s"
  note b = begin_run_facts [of s]
  obtain s4 where r: "processBatch env c (tiles ?s3) ?s3 = Some (Inr (), s4)"
    and a: "advances ?s3 s4 (length (tiles ?s3))"
    using processBatch_advances [OF assms(2)] by blast
  from a obtain vps where v:
    "emitted s4 = emitted ?s3 @ vps"
    "map settled vps = [1 ..< 1 + length (tiles s)]"
    "\<forall>p\<in>set vps. updated p \<and> total p = length (tiles s)"
    "progress s4 = (if length (tiles s) = 0 then progress ?s3 else last vps)"
    "tiles s4 = tiles s"
    by (auto simp: advances_def b)
  let ?ups = "progress ?s3 # vps"
  have len: "length vps = length (tiles s)"
    using v(2) by (metis add_diff_cancel_left' length_map length_upt)
  have "[0 ..< length (tiles s) + 1] = 0 # [1 ..< 1 + length (tiles s)]"
    by (simp add: upt_rec)
  with v(2) b have m: "map settled ?ups = [0 ..< length (tiles s) + 1]"
    by simp
  have l: "last ?ups = progress s4"
    using v(4) len by (cases vps) auto
  have e: "emitted s4 = emitted s @ ?ups"
    using v(1) b by simp
  have "preloadAll env c s =
      Some (Inr (Some (progress s4)), s4\<lparr>isPreloading := False\<rparr>)"
    using assms(1) r by (simp add: preloadAll_def Let_def)
  with m l e v(3,5) b show ?thesis
    by (intro exI [of _ "progress s4"] exI [of _ "s4\<lparr>isPreloading := False\<rparr>"]
        exI [of _ ?ups]) simp
qed






text \<open>
  C4. In every update a run of \<^verbatim>\<open>preloadAll\<close> dispatches and in its final progress,
  \<open>isComplete\<close> is true exactly when \<open>loaded + failed\<close> equals \<open>total\<close>. (The source tests
  \<open>loaded + failed >= total\<close>; the sum never exceeds the total.) The run is one with a
  positive \<^verbatim>\<open>concurrency\<close>, which returns.
\<close>

theorem complete_iff_all_settled:
  assumes "\<not> isPreloading s" and "0 < concurrency"
  shows "\<exists>r s' ups. preloadAll env concurrency s = Some (Inr (Some r), s') \<and>
     emitted s' = emitted s @ ups \<and>
     (\<forall>p\<in>set (ups @ [r]). isComplete p \<longleftrightarrow> loaded p + failed p = total p)"
proof -
  let ?n = "length (tiles s)"
  from preloadAll_run [OF assms] obtain r s' ups where run:
    "preloadAll env concurrency s = Some (Inr (Some r), s')"
    "emitted s' = emitted s @ ups" "ups \<noteq> []" "last ups = r"
    "map settled ups = [0 ..< ?n + 1]"
    "\<forall>p\<in>set ups. updated p \<and> total p = ?n"
    by blast
  from run(3,4) have r: "r \<in> set ups"
    using last_in_set by blast
  have each: "isComplete p \<longleftrightarrow> loaded p + failed p = total p" if "p \<in> set ups" for p
  proof -
    from that have "settled p \<in> set (map settled ups)"
      by simp
    with run(5) have "settled p \<in> set [0 ..< ?n + 1]"
      by simp
    then have "settled p \<le> ?n"
      by auto
    moreover from that run(6) have u: "updated p" "total p = ?n"
      by simp_all
    ultimately show ?thesis
      by (auto simp: settled_def updated_def)
  qed
  with run(1,2) r show ?thesis
    by (intro exI [of _ r] exI [of _ s'] exI [of _ ups]) auto
qed

theorem complete_iff_all_settled_witness:
  "\<not> isPreloading page0 \<and> (0 :: nat) < 3 \<and>
   (\<exists>r s' ups. preloadAll env_flaky 3 page0 = Some (Inr (Some r), s') \<and>
     emitted s' = emitted page0 @ ups \<and>
     (\<forall>p\<in>set (ups @ [r]). isComplete p \<longleftrightarrow> loaded p + failed p = total p)) \<and>
   map_option (\<lambda>(r, s'). map (\<lambda>p. (loaded p + failed p, isComplete p)) (emitted s'))
      (preloadAll env_flaky 3 page0) =
   Some [(0, False), (1, False), (2, False), (3, False), (4, True)]"
proof -
  have idle: "\<not> isPreloading page0"
    by (simp add: page0_def)
  have pos: "(0 :: nat) < 3"
    by simp
  have "map_option (\<lambda>(r, s'). map (\<lambda>p. (loaded p + failed p, isComplete p)) (emitted s'))
      (preloadAll env_flaky 3 page0) =
    Some [(0, False), (1, False), (2, False), (3, False), (4, True)]"
    by code_simp
  with idle pos complete_iff_all_settled [OF idle pos, of env_flaky] show ?thesis
    by (intro conjI)
qed







lemma promise_all_isPreloading: "isPreloading (snd (promise_all env ts s)) = isPreloading s"
  using promise_all_advances [of env ts s] by (auto simp: advances_def)

text \<open>
  C6. Called while \<open>isPreloading\<close> is true, \<^verbatim>\<open>preloadAll\<close> returns \<^verbatim>\<open>undefined\<close> and leaves
  the whole page as it is: the progress, the dispatched updates, the store and the list of
  platform calls (no tile attempt, no fetch). And the flag is true in every state of a run
  in flight, that is after its start and any number of settled attempts, so a second call
  made there does nothing.
\<close>

theorem preloadAll_while_preloading:
  "(isPreloading s \<longrightarrow> preloadAll env concurrency s = Some (Inr None, s)) \<and>
   (let s1 = snd (promise_all env' ts (begin_run s0))
    in isPreloading s1 \<and> preloadAll env concurrency s1 = Some (Inr None, s1))"
  by (simp add: preloadAll_def promise_all_isPreloading begin_run_facts Let_def)

theorem preloadAll_while_preloading_witness:
  "isPreloading (begin_run page0) \<and>
   preloadAll env_ok 4 (begin_run page0) = Some (Inr None, begin_run page0)"
proof -
  have "isPreloading (begin_run page0)"
    by (simp add: begin_run_facts)
  with preloadAll_while_preloading [of "begin_run page0" env_ok 4] show ?thesis
    by simp
qed

subsection \<open>Runs outside these hypotheses\<close>

text \<open>
  With \<^verbatim>\<open>concurrency\<close> 0 every batch is empty, so \<^verbatim>\<open>processBatch\<close> can only return when
  the queue is empty: on a non-empty tile list \<^verbatim>\<open>preloadAll(0)\<close> never settles. This is why
  the properties of a run above are stated for a positive \<^verbatim>\<open>concurrency\<close> (the default is
  4). And on an empty tile list the first update divides 0 by 0: its percentage is
  \<^verbatim>\<open>NaN\<close>. The list built into the page is not empty.
\<close>

lemma processBatch_returns:
  assumes "processBatch (env :: 'b env) c queue s = Some y"
  shows "0 < c \<or> queue = []"
proof (rule processBatch.raw_induct [OF _ assms])
  fix f :: "'b env \<Rightarrow> nat \<Rightarrow> tile list \<Rightarrow> 'b page \<Rightarrow> ((error + unit) \<times> 'b page) option"
    and env c queue s y
  assume ih: "\<And>env c queue s y. f env c queue s = Some y \<Longrightarrow> 0 < c \<or> queue = []"
    and eq: "(case fill_batch c queue [] of
      (batch, queue1) \<Rightarrow>
        case promise_all env batch s of
          (Inl e, s1) \<Rightarrow> Some (Inl e, s1)
        | (Inr bs, s1) \<Rightarrow>
            if queue1 \<noteq> [] then f env c queue1 s1 else Some (Inr (), s1)) = Some y"
  show "0 < c \<or> queue = []"
  proof (cases "c = 0 \<and> queue \<noteq> []")
    case False
    then show ?thesis by auto
  next
    case True
    then have "fill_batch c queue [] = ([], queue)"
      by simp
    with eq True have "f env c queue s = Some y"
      by simp
    then show ?thesis
      by (rule ih)
  qed
qed

lemma preloadAll_zero_concurrency:
  assumes "\<not> isPreloading s" and "tiles s \<noteq> []"
  shows "preloadAll env 0 s = None"
proof -
  have "processBatch env 0 (tiles (begin_run s)) (begin_run s) = None"
  proof (cases "processBatch env 0 (tiles (begin_run s)) (begin_run s)")
    case None
    then show ?thesis .
  next
    case (Some y)
    from processBatch_returns [OF this] assms(2) show ?thesis
      by (simp add: begin_run_facts)
  qed
  with assms(1) show ?thesis
    by (simp add: preloadAll_def Let_def)
qed

lemma empty_tile_list_percentage:
  assumes "tiles s = []"
  shows "percentage (progress (begin_run s)) = NaN"
  using assms by (simp add: begin_run_def updateProgress_def round_percent_def Let_def)

section \<open>Properties of the cache count\<close>

lemma hasTile_effect:
  assumes "hasTile env zl xi yi s = (r, s1)"
  shows "objects s1 = objects s \<and> tiles s1 = tiles s \<and> isPreloading s1 = isPreloading s \<and>
     progress s1 = progress s \<and> emitted s1 = emitted s \<and>
     (\<exists>new. calls s1 = calls s @ new \<and> set new \<subseteq> {IdbOpen, IdbGet (getKey zl xi yi)}) \<and>
     (r = Inr True \<longrightarrow> getKey zl xi yi \<in> dom (objects s)) \<and>
     ((\<forall>n. open_ok env n \<and> request_ok env n) \<longrightarrow>
        r = Inr (getKey zl xi yi \<in> dom (objects s)))"
  using assms
  by (auto simp: hasTile_def getTile_def ensure_db_def init_def Let_def
      split: if_splits sum.splits prod.splits)

lemma count_loop_effect:
  "\<exists>s1 new. count_loop env ts cached s =
       (cached + length (filter (\<lambda>r. r = Inr True) (sweep env ts s)), s1) \<and>
     objects s1 = objects s \<and> tiles s1 = tiles s \<and> isPreloading s1 = isPreloading s \<and>
     progress s1 = progress s \<and> emitted s1 = emitted s \<and>
     calls s1 = calls s @ new \<and>
     (\<forall>c\<in>set new. c = IdbOpen \<or>
        (\<exists>t\<in>set ts. c = IdbGet (getKey (tile_z t) (tile_x t) (tile_y t))))"
proof (induction ts arbitrary: cached s)
  case Nil
  show ?case by simp
next
  case (Cons t ts)
  obtain r s1 where h: "hasTile env (tile_z t) (tile_x t) (tile_y t) s = (r, s1)"
    by (cases "hasTile env (tile_z t) (tile_x t) (tile_y t) s")
  from hasTile_effect [OF h] obtain new1 where e1:
    "objects s1 = objects s" "tiles s1 = tiles s" "isPreloading s1 = isPreloading s"
    "progress s1 = progress s" "emitted s1 = emitted s"
    "calls s1 = calls s @ new1"
    "set new1 \<subseteq> {IdbOpen, IdbGet (getKey (tile_z t) (tile_x t) (tile_y t))}"
    by blast
  let ?c = "if r = Inr True then cached + 1 else cached"
  from Cons.IH [of ?c s1] obtain s2 new2 where e2:
    "count_loop env ts ?c s1 =
       (?c + length (filter (\<lambda>r. r = Inr True) (sweep env ts s1)), s2)"
    "objects s2 = objects s1" "tiles s2 = tiles s1" "isPreloading s2 = isPreloading s1"
    "progress s2 = progress s1" "emitted s2 = emitted s1"
    "calls s2 = calls s1 @ new2"
    "\<forall>c\<in>set new2. c = IdbOpen \<or>
        (\<exists>t\<in>set ts. c = IdbGet (getKey (tile_z t) (tile_x t) (tile_y t)))"
    by blast
  have step: "count_loop env (t # ts) cached s = count_loop env ts ?c s1"
    using h by (cases r) auto
  have cnt: "cached + length (filter (\<lambda>r. r = Inr True) (sweep env (t # ts) s)) =
      ?c + length (filter (\<lambda>r. r = Inr True) (sweep env ts s1))"
    using h by simp
  have "\<forall>c\<in>set (new1 @ new2). c = IdbOpen \<or>
        (\<exists>u\<in>set (t # ts). c = IdbGet (getKey (tile_z u) (tile_x u) (tile_y u)))"
    using e1(7) e2(8) by auto
  with step cnt e1 e2 show ?case
    by (intro exI [of _ s2] exI [of _ "new1 @ new2"]) simp
qed

lemma sweep_all_ok:
  assumes "\<forall>n. open_ok env n \<and> request_ok env n"
  shows "sweep env ts s =
     map (\<lambda>t. Inr (getKey (tile_z t) (tile_x t) (tile_y t) \<in> dom (objects s))) ts"
proof (induction ts arbitrary: s)
  case Nil
  show ?case by simp
next
  case (Cons t ts)
  obtain r s1 where h: "hasTile env (tile_z t) (tile_x t) (tile_y t) s = (r, s1)"
    by (cases "hasTile env (tile_z t) (tile_x t) (tile_y t) s")
  from hasTile_effect [OF h] assms have
    "objects s1 = objects s"
    "r = Inr (getKey (tile_z t) (tile_x t) (tile_y t) \<in> dom (objects s))"
    by blast+
  with h Cons.IH [of s1] show ?case
    by simp
qed

text \<open>
  C8. \<^verbatim>\<open>checkCachedCount\<close> makes no fetch: the platform calls it adds are opens of the
  database and \<^verbatim>\<open>get\<close> requests for keys of the tiles of \<^verbatim>\<open>TilePreloader.tiles\<close>, the list
  \<^verbatim>\<open>preloadAll\<close> works through. It changes neither the store nor the preloader. Its
  \<open>total\<close> is the number of tiles and its \<open>cached\<close> the number of \<^verbatim>\<open>hasTile\<close> checks that
  returned true, a failed check counting as not cached; when no platform call fails, that
  is the number of tiles of the list whose key is in the store.
\<close>

theorem checkCachedCount_reads_only:
  "\<exists>r s1 new. checkCachedCount env s = (r, s1) \<and>
     calls s1 = calls s @ new \<and>
     (\<forall>c\<in>set new. c = IdbOpen \<or>
        (\<exists>t\<in>set (tiles s). c = IdbGet (getKey (tile_z t) (tile_x t) (tile_y t)))) \<and>
     objects s1 = objects s \<and> tiles s1 = tiles s \<and> isPreloading s1 = isPreloading s \<and>
     progress s1 = progress s \<and> emitted s1 = emitted s \<and>
     cc_total r = length (tiles s) \<and>
     cc_cached r = length (filter (\<lambda>x. x = Inr True) (sweep env (tiles s) s)) \<and>
     ((\<forall>n. open_ok env n \<and> request_ok env n) \<longrightarrow>
        cc_cached r =
          length (filter (\<lambda>t. getKey (tile_z t) (tile_x t) (tile_y t) \<in> dom (objects s))
                    (tiles s)))"
proof -
  from count_loop_effect [of env "tiles s" 0 s] obtain s1 new where e:
    "count_loop env (tiles s) 0 s =
       (0 + length (filter (\<lambda>r. r = Inr True) (sweep env (tiles s) s)), s1)"
    "objects s1 = objects s" "tiles s1 = tiles s" "isPreloading s1 = isPreloading s"
    "progress s1 = progress s" "emitted s1 = emitted s"
    "calls s1 = calls s @ new"
    "\<forall>c\<in>set new. c = IdbOpen \<or>
        (\<exists>t\<in>set (tiles s). c = IdbGet (getKey (tile_z t) (tile_x t) (tile_y t)))"
    by blast
  let ?r = "\<lparr>cc_total = length (tiles s1),
      cc_cached = length (filter (\<lambda>r. r = Inr True) (sweep env (tiles s) s)),
      cc_percentage = round_percent
        (length (filter (\<lambda>r. r = Inr True) (sweep env (tiles s) s))) (length (tiles s1))\<rparr>"
  have c: "checkCachedCount env s = (?r, s1)"
    using e(1) by (simp add: checkCachedCount_def)
  have ok: "length (filter (\<lambda>x. x = Inr True) (sweep env (tiles s) s)) =
      length (filter (\<lambda>t. getKey (tile_z t) (tile_x t) (tile_y t) \<in> dom (objects s)) (tiles s))"
    if "\<forall>n. open_ok env n \<and> request_ok env n"
    using sweep_all_ok [OF that, of "tiles s" s]
    by (simp add: filter_map comp_def)
  from c e ok show ?thesis
    by (intro exI [of _ ?r] exI [of _ s1] exI [of _ new]) simp
qed

theorem checkCachedCount_reads_only_witness:
  "(\<forall>n. open_ok env_ok n \<and> request_ok env_ok n) \<and>
   (\<exists>r s1 new. checkCachedCount env_ok page1 = (r, s1) \<and>
     calls s1 = calls page1 @ new \<and>
     (\<forall>c\<in>set new. c = IdbOpen \<or>
        (\<exists>t\<in>set (tiles page1). c = IdbGet (getKey (tile_z t) (tile_x t) (tile_y t)))) \<and>
     objects s1 = objects page1 \<and> tiles s1 = tiles page1 \<and>
     isPreloading s1 = isPreloading page1 \<and>
     progress s1 = progress page1 \<and> emitted s1 = emitted page1 \<and>
     cc_total r = length (tiles page1) \<and>
     cc_cached r = length (filter (\<lambda>x. x = Inr True) (sweep env_ok (tiles page1) page1)) \<and>
     ((\<forall>n. open_ok env_ok n \<and> request_ok env_ok n) \<longrightarrow>
        cc_cached r =
          length (filter (\<lambda>t. getKey (tile_z t) (tile_x t) (tile_y t) \<in> dom (objects page1))
                    (tiles page1)))) \<and>
   (case checkCachedCount env_ok page1 of (r, s1) \<Rightarrow> (r, calls s1)) =
     (\<lparr>cc_total = 4, cc_cached = 2, cc_percentage = Fin 50\<rparr>,
      [IdbOpen, IdbGet ''1/0/0'', IdbGet ''1/0/1'', IdbGet ''1/1/0'', IdbGet ''1/1/1''])"
proof -
  have ok: "\<forall>n. open_ok env_ok n \<and> request_ok env_ok n"
    by (simp add: env_ok_def)
  have "(case checkCachedCount env_ok page1 of (r, s1) \<Rightarrow> (r, calls s1)) =
     (\<lparr>cc_total = 4, cc_cached = 2, cc_percentage = Fin 50\<rparr>,
      [IdbOpen, IdbGet ''1/0/0'', IdbGet ''1/0/1'', IdbGet ''1/1/0'', IdbGet ''1/1/1''])"
    by code_simp
  with ok checkCachedCount_reads_only [of env_ok page1] show ?thesis
    by (intro conjI)
qed

section \<open>Properties of the host hook\<close>

lemma hook_step_reads:
  "filter is_read (storage_calls (hook_step e h)) = filter is_read (storage_calls h)"
  by (cases e) (simp_all add: handleProgress_def resetPreloadStatus_def Let_def)

lemma hook_run_reads:
  "filter is_read (storage_calls (hook_run es h)) = filter is_read (storage_calls h)"
  by (induction es arbitrary: h) (simp_all add: hook_step_reads)

lemma mount_calls: "storage_calls (mount ok store) = [GetItem PRELOAD_STATUS_KEY]"
  by (simp add: mount_def checkPreloadStatus_def Let_def)

text \<open>
  C9, amended. The key is \<^verbatim>\<open>'@SemanaSanta:tilesPreloaded'\<close>, not \<^verbatim>\<open>'tilesPreloaded'\<close>.
  \<^verbatim>\<open>handleProgress\<close> calls \<^verbatim>\<open>setItem\<close> with that key and the string \<^verbatim>\<open>'true'\<close> exactly when
  the progress it receives has \<open>isComplete\<close> true and \<open>percentage >= 90\<close>, and the store
  then holds \<^verbatim>\<open>'true'\<close> under the key when the call resolves; otherwise the store is
  unchanged. Mounting reads the key once, leaves the store as it is and sets \<open>isPreloaded\<close>
  when the value read is \<^verbatim>\<open>'true'\<close>; no later progress message or reset reads it again. The
  only step that removes the key from the store is a reset whose \<^verbatim>\<open>removeItem\<close> resolves.
\<close>

theorem completion_flag_persisted:
  "storage_calls (handleProgress ok p h) =
     storage_calls h @
       (if isComplete p \<and> js_ge (percentage p) 90 then [SetItem PRELOAD_STATUS_KEY ''true'']
        else []) \<and>
   storage (handleProgress ok p h) =
     (if isComplete p \<and> js_ge (percentage p) 90 \<and> ok
      then (storage h)(PRELOAD_STATUS_KEY \<mapsto> ''true'') else storage h) \<and>
   storage_calls (mount ok' store) = [GetItem PRELOAD_STATUS_KEY] \<and>
   storage (mount ok' store) = store \<and>
   isPreloaded (mount ok' store) = (ok' \<and> store PRELOAD_STATUS_KEY = Some ''true'') \<and>
   filter is_read (storage_calls (hook_run es (mount ok' store))) =
     [GetItem PRELOAD_STATUS_KEY] \<and>
   (storage h PRELOAD_STATUS_KEY \<noteq> None \<and> storage (hook_step e h) PRELOAD_STATUS_KEY = None
      \<longrightarrow> e = Reset True) \<and>
   storage (resetPreloadStatus True h) PRELOAD_STATUS_KEY = None"
proof -
  have "storage h PRELOAD_STATUS_KEY \<noteq> None \<and> storage (hook_step e h) PRELOAD_STATUS_KEY = None
      \<longrightarrow> e = Reset True"
    by (cases e) (auto simp: handleProgress_def resetPreloadStatus_def Let_def split: if_splits)
  moreover have "filter is_read (storage_calls (hook_run es (mount ok' store))) =
     [GetItem PRELOAD_STATUS_KEY]"
    by (simp add: hook_run_reads mount_calls)
  ultimately show ?thesis
    by (simp add: handleProgress_def resetPreloadStatus_def mount_def checkPreloadStatus_def
        Let_def)
qed

theorem completion_flag_persisted_witness:
  "storage (mount True Map.empty) PRELOAD_STATUS_KEY \<noteq> Some ''true'' \<and>
   storage (handleProgress True all_loaded (mount True Map.empty)) PRELOAD_STATUS_KEY =
     Some ''true'' \<and>
   storage_calls (handleProgress True all_loaded (mount True Map.empty)) =
     [GetItem PRELOAD_STATUS_KEY, SetItem PRELOAD_STATUS_KEY ''true''] \<and>
   storage (hook_step (Reset True) (handleProgress True all_loaded (mount True Map.empty)))
     PRELOAD_STATUS_KEY = None"
proof -
  let ?h = "mount True Map.empty"
  have c: "isComplete all_loaded \<and> js_ge (percentage all_loaded) 90"
    by (simp add: all_loaded_def js_ge_def)
  from completion_flag_persisted [of True all_loaded ?h True Map.empty "[]" "Reset True"]
    completion_flag_persisted [of True all_loaded "handleProgress True all_loaded ?h" True
      Map.empty "[]" "Reset True"] c
  show ?thesis
    by simp
qed

text \<open>
  The claim as worded fails twice. After a complete progress at 100 percent and a write
  that resolved, nothing is stored under \<^verbatim>\<open>'tilesPreloaded'\<close>: the value is under the
  namespaced key. And when the write rejects, the same progress leaves nothing stored at
  all: the rejection is caught and logged.
\<close>

theorem completion_flag_key_counterexample:
  "isComplete all_loaded \<and> js_ge (percentage all_loaded) 90 \<and>
   storage (handleProgress True all_loaded (mount True Map.empty)) ''tilesPreloaded'' = None \<and>
   storage (handleProgress True all_loaded (mount True Map.empty))
     ''@SemanaSanta:tilesPreloaded'' = Some ''true'' \<and>
   storage (handleProgress False all_loaded (mount True Map.empty)) = Map.empty"
  by (simp add: all_loaded_def js_ge_def handleProgress_def mount_def checkPreloadStatus_def
      PRELOAD_STATUS_KEY_def Let_def)

end
